theory Spec2Isabelle
  imports Main
begin

section \<open>Text and character classes\<close>

text \<open>
  The module \<^verbatim>\<open>translate_messages.py\<close> works on Python text, a sequence of code points,
  with three regular expressions. A text is a list of code points; \<open>str\<close> gives the text
  of a literal and \<open>chr\<close> the code point of a character.

  The patterns are written without flags, so the classes \<^verbatim>\<open>\w\<close> and \<^verbatim>\<open>\s\<close> are the
  Unicode ones: below 128 they are \<^verbatim>\<open>[a-zA-Z0-9_]\<close> and blank, \<^verbatim>\<open>\t \n \v \f \r\<close> and the
  four separators 28 to 31; from 128 on they follow the Unicode character database
  (alphanumeric code points, whitespace code points). \<^verbatim>\<open>lower()\<close> maps \<^verbatim>\<open>A-Z\<close> to
  \<^verbatim>\<open>a-z\<close> in a text of code points below 128 and follows the database, which may change
  the length of a text, otherwise. The database is no part of the repository: its three
  tables are the parameter \<open>u\<close> of everything that reads them.
\<close>

type_synonym ustring = "nat list"

abbreviation chr :: "char \<Rightarrow> nat" where
  "chr c \<equiv> of_char c"

definition str :: "string \<Rightarrow> ustring" where
  "str s = map of_char s"

record unicode =
  alnum :: "nat \<Rightarrow> bool"
  whitespace :: "nat \<Rightarrow> bool"
  lowercase :: "ustring \<Rightarrow> ustring"

definition NL :: nat where
  "NL = 10"

definition is_word :: "unicode \<Rightarrow> nat \<Rightarrow> bool" where
  "is_word u c =
     (if c < 128
      then (97 \<le> c \<and> c \<le> 122) \<or> (65 \<le> c \<and> c \<le> 90) \<or> (48 \<le> c \<and> c \<le> 57) \<or> c = 95
      else alnum u c)"

definition is_space :: "unicode \<Rightarrow> nat \<Rightarrow> bool" where
  "is_space u c =
     (if c < 128
      then c = 32 \<or> (9 \<le> c \<and> c \<le> 13) \<or> (28 \<le> c \<and> c \<le> 31)
      else whitespace u c)"

definition ascii_lower :: "nat \<Rightarrow> nat" where
  "ascii_lower c = (if 65 \<le> c \<and> c \<le> 90 then c + 32 else c)"

definition lower :: "unicode \<Rightarrow> ustring \<Rightarrow> ustring" where
  "lower u s = (if list_all (\<lambda>c. c < 128) s then map ascii_lower s else lowercase u s)"

definition startswith_nl :: "ustring \<Rightarrow> bool" where
  "startswith_nl s = (case s of [] \<Rightarrow> False | c # _ \<Rightarrow> c = NL)"

definition endswith_nl :: "ustring \<Rightarrow> bool" where
  "endswith_nl s = (s \<noteq> [] \<and> last s = NL)"


section \<open>The placeholder pattern\<close>

text \<open>
  \<^verbatim>\<open>%(?:\((\w+)\))?([sd])\<close>, tried at the head of a text. The optional group is
  \<^verbatim>\<open>(\<close>, a greedy run of word characters, \<^verbatim>\<open>)\<close>: a shorter run is followed by a word
  character, never by \<^verbatim>\<open>)\<close>, so only the longest run can match. When the group matches
  and the conversion letter does not follow, the matcher backtracks and tries the letter
  right after \<^verbatim>\<open>%\<close>. The result is group 1 (if it took part), group 2 and the text
  after the match.
\<close>

definition match_group :: "unicode \<Rightarrow> ustring \<Rightarrow> (ustring \<times> ustring) option" where
  "match_group u r =
     (case r of
        [] \<Rightarrow> None
      | c # r1 \<Rightarrow>
          if c = chr CHR ''(''
          then (let name = takeWhile (is_word u) r1; r2 = dropWhile (is_word u) r1
                in case r2 of
                     [] \<Rightarrow> None
                   | d # r3 \<Rightarrow> if name \<noteq> [] \<and> d = chr CHR '')'' then Some (name, r3) else None)
          else None)"

definition match_kind :: "ustring \<Rightarrow> (nat \<times> ustring) option" where
  "match_kind r =
     (case r of
        [] \<Rightarrow> None
      | k # r1 \<Rightarrow> if k = chr CHR ''s'' \<or> k = chr CHR ''d'' then Some (k, r1) else None)"

definition match_bare :: "ustring \<Rightarrow> (ustring option \<times> nat \<times> ustring) option" where
  "match_bare r = (case match_kind r of None \<Rightarrow> None | Some (k, r1) \<Rightarrow> Some (None, k, r1))"

definition match_placeholder :: "unicode \<Rightarrow> ustring \<Rightarrow> (ustring option \<times> nat \<times> ustring) option" where
  "match_placeholder u s =
     (case s of
        [] \<Rightarrow> None
      | c # r \<Rightarrow>
          if c = chr CHR ''%''
          then (case match_group u r of
                  None \<Rightarrow> match_bare r
                | Some (name, r1) \<Rightarrow>
                    (case match_kind r1 of
                       None \<Rightarrow> match_bare r
                     | Some (k, r2) \<Rightarrow> Some (Some name, k, r2)))
          else None)"

lemma match_group_shorter: "match_group u r = Some (name, r') \<Longrightarrow> length r' < length r"
proof -
  assume a: "match_group u r = Some (name, r')"
  then obtain c r1 where r: "r = c # r1" by (cases r) (auto simp: match_group_def)
  from a r obtain d where d: "dropWhile (is_word u) r1 = d # r'"
    by (auto simp: match_group_def Let_def split: list.splits if_splits)
  have "length (dropWhile (is_word u) r1) \<le> length r1" by (rule length_dropWhile_le)
  with d r show ?thesis by simp
qed

lemma match_kind_shorter: "match_kind r = Some (k, r') \<Longrightarrow> length r' < length r"
  by (cases r) (auto simp: match_kind_def split: if_splits)

lemma match_placeholder_shorter:
  "match_placeholder u s = Some (g, k, r') \<Longrightarrow> length r' < length s"
  by (cases s)
     (auto simp: match_placeholder_def match_bare_def split: if_splits option.splits
           dest!: match_group_shorter match_kind_shorter)


section \<open>humanize\_placeholders\<close>

text \<open>
  \<^verbatim>\<open>re.sub(pattern, callback, msgid)\<close>: the pattern is tried at each position from the
  left; where it matches, the callback's text replaces the match and the scan goes on
  after it; elsewhere the character is copied. The callback gives \<^verbatim>\<open>__name__\<close> with the
  name lower-cased when group 1 took part, \<^verbatim>\<open>__number__\<close> when group 2 is \<^verbatim>\<open>d\<close>,
  and \<^verbatim>\<open>__item__\<close> otherwise.
\<close>

definition humanize_repl :: "unicode \<Rightarrow> ustring option \<Rightarrow> nat \<Rightarrow> ustring" where
  "humanize_repl u g1 g2 =
     str ''__'' @ (case g1 of
                     Some name \<Rightarrow> lower u name
                   | None \<Rightarrow> if g2 = chr CHR ''d'' then str ''number'' else str ''item'') @
     str ''__''"

function humanize_placeholders :: "unicode \<Rightarrow> ustring \<Rightarrow> ustring" where
  "humanize_placeholders u [] = []"
| "humanize_placeholders u (c # r) =
     (case match_placeholder u (c # r) of
        Some (g1, g2, rest) \<Rightarrow> humanize_repl u g1 g2 @ humanize_placeholders u rest
      | None \<Rightarrow> c # humanize_placeholders u r)"
  by pat_completeness auto
termination
  by (relation "measure (\<lambda>(u, s). length s)") (auto dest: match_placeholder_shorter)


section \<open>restore\_placeholders\<close>

text \<open>
  \<^verbatim>\<open>re.findall(r'(\s*)(%(?:\(\w+\))?[sd])(\s*)', msgid)\<close>: the list of the three groups of
  every match, left to right, matches not overlapping. Both \<^verbatim>\<open>\s*\<close> are greedy; a
  shorter first run would be followed by a whitespace character, never by \<^verbatim>\<open>%\<close>, so
  only the longest run can match. Group 2 is the text the placeholder pattern consumed.
\<close>

definition match_spaced_placeholder ::
  "unicode \<Rightarrow> ustring \<Rightarrow> (ustring \<times> ustring \<times> ustring \<times> ustring) option" where
  "match_spaced_placeholder u s =
     (let ws1 = takeWhile (is_space u) s; s1 = dropWhile (is_space u) s
      in case match_placeholder u s1 of
           None \<Rightarrow> None
         | Some (g1, g2, s2) \<Rightarrow>
             Some (ws1, take (length s1 - length s2) s1,
                   takeWhile (is_space u) s2, dropWhile (is_space u) s2))"

lemma match_spaced_placeholder_shorter:
  "match_spaced_placeholder u s = Some (a, p, b, r') \<Longrightarrow> length r' < length s"
proof -
  assume a: "match_spaced_placeholder u s = Some (a, p, b, r')"
  then obtain g1 g2 s2 where
    m: "match_placeholder u (dropWhile (is_space u) s) = Some (g1, g2, s2)"
    and r: "r' = dropWhile (is_space u) s2"
    by (auto simp: match_spaced_placeholder_def Let_def split: option.splits)
  have "length r' \<le> length s2" using r by (simp add: length_dropWhile_le)
  moreover have "length s2 < length (dropWhile (is_space u) s)"
    using m by (rule match_placeholder_shorter)
  moreover have "length (dropWhile (is_space u) s) \<le> length s" by (rule length_dropWhile_le)
  ultimately show ?thesis by simp
qed

function findall_placeholders :: "unicode \<Rightarrow> ustring \<Rightarrow> (ustring \<times> ustring \<times> ustring) list" where
  "findall_placeholders u [] = []"
| "findall_placeholders u (c # r) =
     (case match_spaced_placeholder u (c # r) of
        Some (ws1, ph, ws2, rest) \<Rightarrow> (ws1, ph, ws2) # findall_placeholders u rest
      | None \<Rightarrow> findall_placeholders u r)"
  by pat_completeness auto
termination
  by (relation "measure (\<lambda>(u, s). length s)") (auto dest: match_spaced_placeholder_shorter)

text \<open>
  \<^verbatim>\<open>(\s*)(__[\w]+?__)(\s*)\<close>, tried at the head of a text. \<^verbatim>\<open>[\w]+?\<close> is lazy: it takes
  one word character and then the fewest more that bring it in front of \<^verbatim>\<open>__\<close>; the
  final \<^verbatim>\<open>\s*\<close> always matches, so the first such stop is the match. The underscore is
  a word character itself.
\<close>

fun lazy_more :: "unicode \<Rightarrow> ustring \<Rightarrow> ustring \<Rightarrow> (ustring \<times> ustring) option" where
  "lazy_more u acc [] = None"
| "lazy_more u acc [c] = None"
| "lazy_more u acc (c # d # r) =
     (if c = chr CHR ''_'' \<and> d = chr CHR ''_'' then Some (acc, r)
      else if is_word u c then lazy_more u (acc @ [c]) (d # r)
      else None)"

definition lazy_word :: "unicode \<Rightarrow> ustring \<Rightarrow> (ustring \<times> ustring) option" where
  "lazy_word u s =
     (case s of [] \<Rightarrow> None | c # r \<Rightarrow> if is_word u c then lazy_more u [c] r else None)"

definition match_token :: "unicode \<Rightarrow> ustring \<Rightarrow> (ustring \<times> ustring \<times> ustring \<times> ustring) option" where
  "match_token u s =
     (let ws1 = takeWhile (is_space u) s; s1 = dropWhile (is_space u) s
      in case s1 of
           c # d # s2 \<Rightarrow>
             if c = chr CHR ''_'' \<and> d = chr CHR ''_''
             then (case lazy_word u s2 of
                     None \<Rightarrow> None
                   | Some (w, s3) \<Rightarrow>
                       Some (ws1, str ''__'' @ w @ str ''__'',
                             takeWhile (is_space u) s3, dropWhile (is_space u) s3))
             else None
         | _ \<Rightarrow> None)"

lemma lazy_more_shorter: "lazy_more u acc s = Some (w, r') \<Longrightarrow> length r' < length s"
  by (induction u acc s rule: lazy_more.induct) (auto split: if_splits)

lemma lazy_word_shorter: "lazy_word u s = Some (w, r') \<Longrightarrow> length r' < length s"
  by (cases s) (auto simp: lazy_word_def split: if_splits dest!: lazy_more_shorter)

lemma match_token_shorter:
  "match_token u s = Some (a, t, b, r') \<Longrightarrow> length r' < length s"
proof -
  assume a: "match_token u s = Some (a, t, b, r')"
  then obtain c d s2 w s3 where s1: "dropWhile (is_space u) s = c # d # s2"
    and lw: "lazy_word u s2 = Some (w, s3)" and r: "r' = dropWhile (is_space u) s3"
    by (auto simp: match_token_def Let_def split: list.splits if_splits option.splits)
  have "length r' \<le> length s3" using r by (simp add: length_dropWhile_le)
  moreover have "length s3 < length s2" using lw by (rule lazy_word_shorter)
  moreover have "length (dropWhile (is_space u) s) \<le> length s" by (rule length_dropWhile_le)
  ultimately show ?thesis using s1 by simp
qed

datatype error = StopIteration | IndexError

text \<open>
  The substitution of \<^verbatim>\<open>restore_placeholders\<close>. Its callback reads the first recorded
  placeholder and pops it, \<^verbatim>\<open>placehoders[0]\<close> raising IndexError on the empty list; the
  list of placeholders still to use is the state of the scan.
\<close>

function restore_sub :: "unicode \<Rightarrow> (ustring \<times> ustring \<times> ustring) list \<Rightarrow> ustring \<Rightarrow> error + ustring" where
  "restore_sub u phs [] = Inr []"
| "restore_sub u phs (c # r) =
     (case match_token u (c # r) of
        Some (ws1, tok, ws2, rest) \<Rightarrow>
          (case phs of
             [] \<Rightarrow> Inl IndexError
           | (a, p, b) # phs' \<Rightarrow>
               (case restore_sub u phs' rest of
                  Inl e \<Rightarrow> Inl e
                | Inr out \<Rightarrow> Inr (a @ p @ b @ out)))
      | None \<Rightarrow>
          (case restore_sub u phs r of
             Inl e \<Rightarrow> Inl e
           | Inr out \<Rightarrow> Inr (c # out)))"
  by pat_completeness auto
termination
  by (relation "measure (\<lambda>(u, phs, s). length s)") (auto dest: match_token_shorter)

definition restore_placeholders :: "unicode \<Rightarrow> ustring \<Rightarrow> ustring \<Rightarrow> error + ustring" where
  "restore_placeholders u msgid translation =
     (let placehoders = findall_placeholders u msgid
      in restore_sub u placehoders translation)"


section \<open>fix\_translation\<close>

definition fix_translation :: "unicode \<Rightarrow> ustring \<Rightarrow> ustring \<Rightarrow> error + ustring" where
  "fix_translation u msgid translation =
     (let translation =
            (if startswith_nl msgid \<and> \<not> startswith_nl translation
             then NL # translation else translation);
          translation =
            (if endswith_nl msgid \<and> \<not> endswith_nl translation
             then translation @ [NL] else translation)
      in restore_placeholders u msgid translation)"


section \<open>Catalog entries and the command\<close>

text \<open>
  An entry of the catalog, as the command reads and writes it: \<^verbatim>\<open>msgid\<close>,
  \<^verbatim>\<open>msgid_plural\<close> (the empty text when there is no plural form), \<^verbatim>\<open>msgstr\<close>,
  \<^verbatim>\<open>msgstr_plural\<close> (a dict from plural index to text, kept in insertion order),
  \<^verbatim>\<open>flags\<close> (a list) and \<^verbatim>\<open>obsolete\<close>. The method \<^verbatim>\<open>entry.translated()\<close> belongs to the
  catalog library; it is a parameter \<open>translated\<close> of the functions that call it, a
  predicate of the entry's current contents.
\<close>

record entry =
  msgid :: ustring
  msgid_plural :: ustring
  msgstr :: ustring
  msgstr_plural :: "(int \<times> ustring) list"
  flags :: "ustring list"
  obsolete :: bool

text \<open>The options \<^verbatim>\<open>set_options\<close> stores on the command that the translation passes read.\<close>

record command =
  skip_translated :: bool
  set_fuzzy :: bool

definition need_translate :: "(entry \<Rightarrow> bool) \<Rightarrow> command \<Rightarrow> entry \<Rightarrow> bool" where
  "need_translate translated self entry =
     (\<not> skip_translated self \<or> \<not> translated entry \<or> \<not> obsolete entry)"

fun get_strings_to_translate ::
  "unicode \<Rightarrow> (entry \<Rightarrow> bool) \<Rightarrow> command \<Rightarrow> entry list \<Rightarrow> ustring list" where
  "get_strings_to_translate u translated self [] = []"
| "get_strings_to_translate u translated self (entry # po) =
     (if \<not> need_translate translated self entry
      then get_strings_to_translate u translated self po
      else humanize_placeholders u (msgid entry) #
           (if msgid_plural entry \<noteq> []
            then [humanize_placeholders u (msgid_plural entry)] else []) @
           get_strings_to_translate u translated self po)"

text \<open>
  \<^verbatim>\<open>d[k] = v\<close> on a dict: the value of a key already there is replaced in place, a new
  key is added at the end.
\<close>

fun dict_set :: "int \<Rightarrow> ustring \<Rightarrow> (int \<times> ustring) list \<Rightarrow> (int \<times> ustring) list" where
  "dict_set k v [] = [(k, v)]"
| "dict_set k v ((k', v') # d) =
     (if k' = k then (k, v) # d else (k', v') # dict_set k v d)"

text \<open>
  \<^verbatim>\<open>for k, v in entry.msgstr_plural.items(): if k != 0: entry.msgstr_plural[k] = translation\<close>
\<close>

definition fill_rest :: "ustring \<Rightarrow> (int \<times> ustring) list \<Rightarrow> (int \<times> ustring) list" where
  "fill_rest translation d = map (\<lambda>(k, v). if k \<noteq> 0 then (k, translation) else (k, v)) d"

text \<open>
  \<^verbatim>\<open>if self.set_fuzzy and 'fuzzy' not in entry.flags: entry.flags.append('fuzzy')\<close>
\<close>

definition flag_fuzzy :: "command \<Rightarrow> entry \<Rightarrow> entry" where
  "flag_fuzzy self entry =
     (if set_fuzzy self \<and> str ''fuzzy'' \<notin> set (flags entry)
      then entry\<lparr>flags := flags entry @ [str ''fuzzy'']\<rparr> else entry)"

text \<open>
  The body of the loop of \<^verbatim>\<open>update_translations\<close> for an entry that needs translation.
  The entry is changed in place and \<^verbatim>\<open>next(translations)\<close> moves the iterator, so the
  result is the entry as it stands, the translations not yet consumed, and the exception
  that stopped the body, if any: StopIteration from \<^verbatim>\<open>next\<close> on the exhausted iterator,
  IndexError from \<^verbatim>\<open>fix_translation\<close>.
\<close>

definition update_entry ::
  "unicode \<Rightarrow> command \<Rightarrow> entry \<Rightarrow> ustring list \<Rightarrow> entry \<times> ustring list \<times> error option" where
  "update_entry u self entry translations =
     (if msgid_plural entry \<noteq> []
      then (case translations of
              [] \<Rightarrow> (entry, [], Some StopIteration)
            | translation # translations \<Rightarrow>
                (case fix_translation u (msgid entry) translation of
                   Inl e \<Rightarrow> (entry, translations, Some e)
                 | Inr translation \<Rightarrow>
                     (let entry = entry\<lparr>msgstr_plural := dict_set 0 translation (msgstr_plural entry)\<rparr>
                      in case translations of
                           [] \<Rightarrow> (entry, [], Some StopIteration)
                         | translation # translations \<Rightarrow>
                             (case fix_translation u (msgid_plural entry) translation of
                                Inl e \<Rightarrow> (entry, translations, Some e)
                              | Inr translation \<Rightarrow>
                                  (flag_fuzzy self
                                     (entry\<lparr>msgstr_plural := fill_rest translation (msgstr_plural entry)\<rparr>),
                                   translations, None)))))
      else (case translations of
              [] \<Rightarrow> (entry, [], Some StopIteration)
            | translation # translations \<Rightarrow>
                (case fix_translation u (msgid entry) translation of
                   Inl e \<Rightarrow> (entry, translations, Some e)
                 | Inr translation \<Rightarrow>
                     (flag_fuzzy self (entry\<lparr>msgstr := translation\<rparr>), translations, None))))"

text \<open>
  \<^verbatim>\<open>update_translations(entries, translated_strings)\<close>: the entries after the call, the
  translations the iterator has not given out, and the exception that ended the call
  (None when it returned). An exception leaves the entries before it as updated and the
  entries after it untouched.
\<close>

fun update_translations ::
  "unicode \<Rightarrow> (entry \<Rightarrow> bool) \<Rightarrow> command \<Rightarrow> entry list \<Rightarrow> ustring list \<Rightarrow>
     entry list \<times> ustring list \<times> error option" where
  "update_translations u translated self [] translations = ([], translations, None)"
| "update_translations u translated self (entry # entries) translations =
     (if \<not> need_translate translated self entry
      then (case update_translations u translated self entries translations of
              (entries', rest, err) \<Rightarrow> (entry # entries', rest, err))
      else (case update_entry u self entry translations of
              (entry', rest, Some e) \<Rightarrow> (entry' # entries, rest, Some e)
            | (entry', rest, None) \<Rightarrow>
                (case update_translations u translated self entries rest of
                   (entries', rest', err) \<Rightarrow> (entry' # entries', rest', err))))"

text \<open>
  The catalog library's own \<^verbatim>\<open>translated()\<close>, the predicate the command is run with: an
  obsolete or fuzzy entry is never translated; otherwise an entry is translated when its
  \<^verbatim>\<open>msgstr\<close> is not empty, or when it has plural forms and none of them is empty.
\<close>

definition po_translated :: "entry \<Rightarrow> bool" where
  "po_translated e =
     (if obsolete e \<or> str ''fuzzy'' \<in> set (flags e) then False
      else if msgstr e \<noteq> [] then True
      else if msgstr_plural e \<noteq> [] then list_all (\<lambda>(k, v). v \<noteq> []) (msgstr_plural e)
      else False)"


section \<open>Vocabulary of the properties\<close>

text \<open>
  The source texts an entry contributes, in the order both passes visit them: its
  \<^verbatim>\<open>msgid\<close>, then its \<^verbatim>\<open>msgid_plural\<close> when it has one; and those of a catalog, entry
  by entry, for the entries that need translation. \<open>fix_ok\<close> holds of a source text and
  a translation when \<^verbatim>\<open>fix_translation\<close> returns for them, and \<open>first_failure\<close> is
  the position of the first translation for which it raises (the number of pairs when
  there is none).
\<close>

definition slot_sources :: "entry \<Rightarrow> ustring list" where
  "slot_sources e = msgid e # (if msgid_plural e \<noteq> [] then [msgid_plural e] else [])"

definition sources :: "(entry \<Rightarrow> bool) \<Rightarrow> command \<Rightarrow> entry list \<Rightarrow> ustring list" where
  "sources translated self po = concat (map slot_sources (filter (need_translate translated self) po))"

definition fix_ok :: "unicode \<Rightarrow> ustring \<times> ustring \<Rightarrow> bool" where
  "fix_ok u p = (case fix_translation u (fst p) (snd p) of Inl e \<Rightarrow> False | Inr f \<Rightarrow> True)"

definition first_failure :: "unicode \<Rightarrow> ustring list \<Rightarrow> ustring list \<Rightarrow> nat" where
  "first_failure u srcs ts = length (takeWhile (fix_ok u) (zip srcs ts))"

text \<open>
  \<open>reached u translated self po ts i\<close>: the loop of \<^verbatim>\<open>update_translations\<close> gets to the
  entry at position \<open>i\<close>, that is, the call on the entries before it returns.
\<close>

definition reached ::
  "unicode \<Rightarrow> (entry \<Rightarrow> bool) \<Rightarrow> command \<Rightarrow> entry list \<Rightarrow> ustring list \<Rightarrow> nat \<Rightarrow> bool" where
  "reached u translated self po ts i =
     (snd (snd (update_translations u translated self (take i po) ts)) = None)"

text \<open>
  Entries and options for the examples. The texts of the examples hold code points below
  128 only, where the classes and \<^verbatim>\<open>lower()\<close> are fixed and no table is consulted;
  \<open>example_db\<close> stands where a database is asked for.
\<close>

definition example_db :: unicode where
  "example_db = \<lparr>alnum = (\<lambda>c. False), whitespace = (\<lambda>c. False), lowercase = (\<lambda>s. s)\<rparr>"

text \<open>
  A table for one example beyond code point 127: U+0130, the capital I with a dot above,
  is a letter, and \<^verbatim>\<open>lower()\<close> turns it into two code points, the letter i and the
  combining dot U+0307, which is not a word character.
\<close>

definition dotted_db :: unicode where
  "dotted_db = \<lparr>alnum = (\<lambda>c. c = 304), whitespace = (\<lambda>c. False),
     lowercase = (\<lambda>s. concat (map (\<lambda>c. if c = 304 then [105, 775] else [ascii_lower c]) s))\<rparr>"

definition entry_hello :: entry where
  "entry_hello = \<lparr>msgid = str ''Hello'', msgid_plural = [], msgstr = str ''Hola'',
     msgstr_plural = [], flags = [], obsolete = False\<rparr>"

definition entry_new :: entry where
  "entry_new = \<lparr>msgid = str ''New'', msgid_plural = [], msgstr = [],
     msgstr_plural = [], flags = [], obsolete = False\<rparr>"

definition entry_items :: entry where
  "entry_items = \<lparr>msgid = str ''%d item'', msgid_plural = str ''%d items'', msgstr = [],
     msgstr_plural = [(0, []), (1, []), (2, [])], flags = [], obsolete = False\<rparr>"

definition untranslated_only :: command where
  "untranslated_only = \<lparr>skip_translated = True, set_fuzzy = False\<rparr>"

definition mark_fuzzy :: command where
  "mark_fuzzy = \<lparr>skip_translated = False, set_fuzzy = True\<rparr>"





text \<open>
  The pieces of a source text: a literal character, a named placeholder with its name and
  conversion letter, or a bare placeholder with its letter. \<open>original\<close> is the text of a
  piece and \<open>humanized\<close> the text the specification gives it; \<open>placeholder_at_head\<close>
  says that a text begins with a placeholder. \<open>pieces\<close> reads a text from the left with
  the placeholder pattern.
\<close>

datatype piece = Lit nat | Named ustring nat | Bare nat

fun original :: "piece \<Rightarrow> ustring" where
  "original (Lit c) = [c]"
| "original (Named name k) = str ''%('' @ name @ str '')'' @ [k]"
| "original (Bare k) = [chr CHR ''%'', k]"

fun humanized :: "unicode \<Rightarrow> piece \<Rightarrow> ustring" where
  "humanized u (Lit c) = [c]"
| "humanized u (Named name k) = str ''__'' @ lower u name @ str ''__''"
| "humanized u (Bare k) = (if k = chr CHR ''d'' then str ''__number__'' else str ''__item__'')"

fun is_placeholder :: "unicode \<Rightarrow> piece \<Rightarrow> bool" where
  "is_placeholder u (Lit c) = False"
| "is_placeholder u (Named name k) =
     (name \<noteq> [] \<and> list_all (is_word u) name \<and> (k = chr CHR ''s'' \<or> k = chr CHR ''d''))"
| "is_placeholder u (Bare k) = (k = chr CHR ''s'' \<or> k = chr CHR ''d'')"

definition placeholder_at_head :: "unicode \<Rightarrow> ustring \<Rightarrow> bool" where
  "placeholder_at_head u s = (\<exists>p r. is_placeholder u p \<and> s = original p @ r)"

definition matched_piece :: "ustring option \<Rightarrow> nat \<Rightarrow> piece" where
  "matched_piece g1 g2 = (case g1 of Some name \<Rightarrow> Named name g2 | None \<Rightarrow> Bare g2)"

function pieces :: "unicode \<Rightarrow> ustring \<Rightarrow> piece list" where
  "pieces u [] = []"
| "pieces u (c # r) =
     (case match_placeholder u (c # r) of
        Some (g1, g2, rest) \<Rightarrow> matched_piece g1 g2 # pieces u rest
      | None \<Rightarrow> Lit c # pieces u r)"
  by pat_completeness auto
termination
  by (relation "measure (\<lambda>(u, s). length s)") (auto dest: match_placeholder_shorter)

text \<open>
  \<open>name_ok\<close>: the name of a named placeholder lower-cases to a run of word characters
  other than the underscore, which is what the token pattern reads back in one piece.
\<close>

fun name_ok :: "unicode \<Rightarrow> piece \<Rightarrow> bool" where
  "name_ok u (Named name k) =
     (lower u name \<noteq> [] \<and> list_all (\<lambda>x. is_word u x \<and> x \<noteq> chr CHR ''_'') (lower u name))"
| "name_ok u (Lit c) = True"
| "name_ok u (Bare k) = True"

section \<open>The two passes over a catalog\<close>

lemma sources_Nil [simp]: "sources tr self [] = []"
  by (simp add: sources_def)

lemma sources_Cons:
  "sources tr self (e # po) =
     (if need_translate tr self e then slot_sources e @ sources tr self po else sources tr self po)"
  by (simp add: sources_def)

lemma sources_append: "sources tr self (xs @ ys) = sources tr self xs @ sources tr self ys"
  by (simp add: sources_def)

lemma get_strings_sources:
  "get_strings_to_translate u tr self po = map (humanize_placeholders u) (sources tr self po)"
  by (induction po) (auto simp: sources_Cons slot_sources_def)

lemma get_strings_append:
  "get_strings_to_translate u tr self (xs @ ys) =
     get_strings_to_translate u tr self xs @ get_strings_to_translate u tr self ys"
  by (induction xs) auto

lemma length_sources:
  "length (sources tr self po) =
     length (filter (need_translate tr self) po) +
     length (filter (\<lambda>e. need_translate tr self e \<and> msgid_plural e \<noteq> []) po)"
  by (induction po) (auto simp: sources_Cons slot_sources_def)

lemma restore_sub_error: "restore_sub u phs t = Inl e \<Longrightarrow> e = IndexError"
  by (induction u phs t rule: restore_sub.induct)
     (auto split: option.splits list.splits sum.splits prod.splits)

lemma fix_translation_error: "fix_translation u m t = Inl e \<Longrightarrow> e = IndexError"
  by (auto simp: fix_translation_def restore_placeholders_def Let_def dest: restore_sub_error)

lemma fix_ok_iff: "fix_ok u (s, t) \<longleftrightarrow> (\<exists>f. fix_translation u s t = Inr f)"
  by (auto simp: fix_ok_def split: sum.splits)

lemma not_fix_ok_iff: "\<not> fix_ok u (s, t) \<longleftrightarrow> fix_translation u s t = Inl IndexError"
  by (auto simp: fix_ok_def split: sum.splits dest: fix_translation_error)

lemma update_entry_None:
  "update_entry u self e ts = (e', rest, None) \<Longrightarrow>
     length (slot_sources e) \<le> length ts \<and> rest = drop (length (slot_sources e)) ts"
  by (auto simp: update_entry_def slot_sources_def Let_def split: if_splits list.splits sum.splits)

lemma update_entry_enough:
  "length (slot_sources e) \<le> length ts \<Longrightarrow> update_entry u self e ts = (e', rest, Some x) \<Longrightarrow>
     x = IndexError"
  by (cases x)
     (auto simp: update_entry_def slot_sources_def Let_def
           split: if_splits list.splits sum.splits dest: fix_translation_error)

lemma update_entry_short:
  "length ts < length (slot_sources e) \<Longrightarrow> update_entry u self e ts = (e', rest, err) \<Longrightarrow>
     err \<noteq> None"
  by (auto simp: update_entry_def slot_sources_def Let_def split: if_splits list.splits sum.splits)

lemma update_translations_None:
  "update_translations u tr self po ts = (po', rest, None) \<Longrightarrow>
     length (sources tr self po) \<le> length ts \<and> rest = drop (length (sources tr self po)) ts"
proof (induction po arbitrary: ts po')
  case Nil
  then show ?case by simp
next
  case (Cons e po)
  show ?case
  proof (cases "need_translate tr self e")
    case False
    with Cons show ?thesis by (auto simp: sources_Cons split: prod.splits)
  next
    case True
    with Cons.prems obtain e1 r1 where u: "update_entry u self e ts = (e1, r1, None)"
      by (auto split: prod.splits option.splits)
    with True Cons.prems obtain p1 where "update_translations u tr self po r1 = (p1, rest, None)"
      by (auto split: prod.splits)
    from Cons.IH[OF this] update_entry_None[OF u] True show ?thesis
      by (auto simp: sources_Cons add.commute)
  qed
qed

lemma update_translations_enough:
  "length (sources tr self po) \<le> length ts \<Longrightarrow>
     update_translations u tr self po ts = (po', rest, Some x) \<Longrightarrow> x = IndexError"
proof (induction po arbitrary: ts po')
  case Nil
  then show ?case by simp
next
  case (Cons e po)
  show ?case
  proof (cases "need_translate tr self e")
    case False
    with Cons show ?thesis by (auto simp: sources_Cons split: prod.splits)
  next
    case True
    obtain e1 r1 err1 where u: "update_entry u self e ts = (e1, r1, err1)"
      by (cases "update_entry u self e ts") auto
    from True Cons.prems(1) have len: "length (slot_sources e) \<le> length ts"
      by (simp add: sources_Cons)
    show ?thesis
    proof (cases err1)
      case None
      with u True Cons.prems obtain p1 where
        r: "update_translations u tr self po r1 = (p1, rest, Some x)"
        by (auto split: prod.splits)
      from update_entry_None u None have "r1 = drop (length (slot_sources e)) ts" by blast
      with True Cons.prems(1) have "length (sources tr self po) \<le> length r1"
        by (simp add: sources_Cons)
      from Cons.IH[OF this r] show ?thesis .
    next
      case (Some y)
      with u True Cons.prems have "y = x" by auto
      with update_entry_enough[OF len] u Some show ?thesis by blast
    qed
  qed
qed


lemma zip_take_length: "zip xs (take (length xs) ys) = zip xs ys"
proof (induction xs arbitrary: ys)
  case Nil
  then show ?case by simp
next
  case (Cons a xs)
  then show ?case by (cases ys) simp_all
qed

lemma update_entry_ok:
  "length (slot_sources e) \<le> length ts \<Longrightarrow>
   list_all (fix_ok u) (zip (slot_sources e) ts) \<Longrightarrow>
   \<exists>e'. update_entry u self e ts = (e', drop (length (slot_sources e)) ts, None)"
  by (auto simp: update_entry_def slot_sources_def fix_ok_def Let_def
           split: if_splits list.splits sum.splits)

lemma update_translations_ok:
  "length (sources tr self po) \<le> length ts \<Longrightarrow>
   list_all (fix_ok u) (zip (sources tr self po) ts) \<Longrightarrow>
   \<exists>po'. update_translations u tr self po ts = (po', drop (length (sources tr self po)) ts, None)"
proof (induction po arbitrary: ts)
  case Nil
  then show ?case by simp
next
  case (Cons e po)
  show ?case
  proof (cases "need_translate tr self e")
    case False
    with Cons.prems have "length (sources tr self po) \<le> length ts"
      "list_all (fix_ok u) (zip (sources tr self po) ts)" by (simp_all add: sources_Cons)
    from Cons.IH[OF this] False show ?thesis by (auto simp: sources_Cons)
  next
    case True
    let ?n = "length (slot_sources e)"
    from True Cons.prems have len: "?n \<le> length ts" by (simp add: sources_Cons)
    from True Cons.prems(2)
    have z: "list_all (fix_ok u) (zip (slot_sources e @ sources tr self po) ts)"
      by (simp add: sources_Cons)
    from z have z1': "list_all (fix_ok u) (zip (slot_sources e) ts)"
      and z2: "list_all (fix_ok u) (zip (sources tr self po) (drop ?n ts))"
      by (simp_all add: zip_append1 zip_take_length)
    from update_entry_ok[OF len z1'] obtain e' where
      u: "update_entry u self e ts = (e', drop ?n ts, None)" by blast
    from True Cons.prems(1) len have "length (sources tr self po) \<le> length (drop ?n ts)"
      by (simp add: sources_Cons)
    from Cons.IH[OF this z2] obtain p1 where
      "update_translations u tr self po (drop ?n ts) =
         (p1, drop (length (sources tr self po)) (drop ?n ts), None)"
      by blast
    with u True show ?thesis by (auto simp: sources_Cons add.commute)
  qed
qed

lemma update_entry_fix_ok:
  "update_entry u self e ts = (e', rest, None) \<Longrightarrow> list_all (fix_ok u) (zip (slot_sources e) ts)"
  by (auto simp: update_entry_def slot_sources_def fix_ok_def Let_def
           split: if_splits list.splits sum.splits)

lemma update_translations_fix_ok:
  "update_translations u tr self po ts = (po', rest, None) \<Longrightarrow>
     list_all (fix_ok u) (zip (sources tr self po) ts)"
proof (induction po arbitrary: ts po')
  case Nil
  then show ?case by simp
next
  case (Cons e po)
  show ?case
  proof (cases "need_translate tr self e")
    case False
    with Cons show ?thesis by (auto simp: sources_Cons split: prod.splits)
  next
    case True
    with Cons.prems obtain e1 r1 where u: "update_entry u self e ts = (e1, r1, None)"
      by (auto split: prod.splits option.splits)
    with True Cons.prems obtain p1 where r: "update_translations u tr self po r1 = (p1, rest, None)"
      by (auto split: prod.splits)
    from update_entry_None[OF u] have r1: "r1 = drop (length (slot_sources e)) ts" by simp
    from Cons.IH[OF r] update_entry_fix_ok[OF u] True r1 show ?thesis
      by (simp add: sources_Cons zip_append1 zip_take_length)
  qed
qed

lemma update_translations_length:
  "update_translations u tr self po ts = (po', rest, err) \<Longrightarrow> length po' = length po"
proof (induction po arbitrary: ts po')
  case Nil
  then show ?case by simp
next
  case (Cons e po)
  then show ?case
    by (auto split: if_splits prod.splits option.splits)
qed

lemma length_fst_update_translations:
  "length (fst (update_translations u tr self po ts)) = length po"
  by (cases "update_translations u tr self po ts") (auto dest: update_translations_length)

lemma update_translations_append:
  "update_translations u tr self (xs @ ys) ts =
     (case update_translations u tr self xs ts of
        (xs', r, Some x) \<Rightarrow> (xs' @ ys, r, Some x)
      | (xs', r, None) \<Rightarrow>
          (case update_translations u tr self ys r of
             (ys', r', err) \<Rightarrow> (xs' @ ys', r', err)))"
proof (induction xs arbitrary: ts)
  case Nil
  then show ?case by (simp split: prod.splits)
next
  case (Cons a xs)
  then show ?case by (auto split: prod.splits option.splits)
qed

text \<open>
  The entry at a position after the call, whatever way the call ends: updated by the loop
  body from the translations at the position of its strings when it needs translation and
  the loop gets to it, and the entry given otherwise.
\<close>

lemma update_translations_nth:
  assumes i: "i < length po"
  shows "fst (update_translations u tr self po ts) ! i =
          (if need_translate tr self (po ! i) \<and> reached u tr self po ts i
           then fst (update_entry u self (po ! i) (drop (length (sources tr self (take i po))) ts))
           else po ! i)"
proof -
  from i have sp: "po = take i po @ po ! i # drop (Suc i) po" by (simp add: id_take_nth_drop)
  from i have li: "length (take i po) = i" by simp
  obtain pre' r1 err1 where p: "update_translations u tr self (take i po) ts = (pre', r1, err1)"
    by (cases "update_translations u tr self (take i po) ts") auto
  from update_translations_length[OF p] li have lp: "length pre' = i" by simp
  have run: "update_translations u tr self po ts =
      (case update_translations u tr self (take i po) ts of
        (xs', r, Some x) \<Rightarrow> (xs' @ po ! i # drop (Suc i) po, r, Some x)
      | (xs', r, None) \<Rightarrow>
          (case update_translations u tr self (po ! i # drop (Suc i) po) r of
             (ys', r', err) \<Rightarrow> (xs' @ ys', r', err)))"
    using update_translations_append[of u tr self "take i po" "po ! i # drop (Suc i) po" ts]
    unfolding sp[symmetric] .
  show ?thesis
  proof (cases err1)
    case (Some x)
    with run p lp have "fst (update_translations u tr self po ts) ! i = po ! i"
      by (simp add: nth_append)
    with p Some show ?thesis by (simp add: reached_def)
  next
    case None
    with p have r1: "r1 = drop (length (sources tr self (take i po))) ts"
      using update_translations_None by blast
    from p None have re: "reached u tr self po ts i" by (simp add: reached_def)
    show ?thesis
    proof (cases "need_translate tr self (po ! i)")
      case False
      with run p None lp have "fst (update_translations u tr self po ts) ! i = po ! i"
        by (auto simp: nth_append split: prod.splits)
      with False show ?thesis by simp
    next
      case True
      with run p None lp
      have "fst (update_translations u tr self po ts) ! i = fst (update_entry u self (po ! i) r1)"
        by (auto simp: nth_append split: prod.splits option.splits)
      with True re r1 show ?thesis by simp
    qed
  qed
qed

lemma reached_all:
  "snd (snd (update_translations u tr self po ts)) = None \<Longrightarrow> reached u tr self po ts i"
proof -
  assume a: "snd (snd (update_translations u tr self po ts)) = None"
  from a update_translations_append[of u tr self "take i po" "drop i po" ts]
  show ?thesis
    by (cases "update_translations u tr self (take i po) ts")
       (auto simp: reached_def split: option.splits prod.splits)
qed


text \<open>Where the first failing translation is, and what the iterator holds after it.\<close>

lemma first_failure_Nil [simp]: "first_failure u [] ts = 0" "first_failure u xs [] = 0"
  by (simp_all add: first_failure_def)

lemma first_failure_Cons:
  "first_failure u (x # xs) (t # ts) = (if fix_ok u (x, t) then Suc (first_failure u xs ts) else 0)"
  by (simp add: first_failure_def)

lemma first_failure_le: "first_failure u xs ts \<le> length xs \<and> first_failure u xs ts \<le> length ts"
proof -
  have "length (takeWhile (fix_ok u) (zip xs ts)) \<le> length (zip xs ts)"
    by (rule length_takeWhile_le)
  then show ?thesis by (simp add: first_failure_def)
qed

lemma first_failure_early:
  "first_failure u xs ts < length xs \<Longrightarrow> first_failure u (xs @ ys) ts = first_failure u xs ts"
proof (induction xs arbitrary: ts)
  case Nil
  then show ?case by simp
next
  case (Cons x xs)
  then show ?case by (cases ts) (auto simp: first_failure_Cons)
qed

lemma first_failure_late:
  "first_failure u xs ts = length xs \<Longrightarrow>
     first_failure u (xs @ ys) ts = length xs + first_failure u ys (drop (length xs) ts)"
proof (induction xs arbitrary: ts)
  case Nil
  then show ?case by simp
next
  case (Cons x xs)
  then show ?case by (cases ts) (auto simp: first_failure_Cons split: if_splits)
qed

lemma first_failure_all:
  "length xs \<le> length ts \<Longrightarrow> list_all (fix_ok u) (zip xs ts) \<Longrightarrow> first_failure u xs ts = length xs"
proof (induction xs arbitrary: ts)
  case Nil
  then show ?case by simp
next
  case (Cons x xs)
  then show ?case by (cases ts) (auto simp: first_failure_Cons)
qed

lemma first_failure_all_iff:
  "first_failure u xs ts = length xs \<longleftrightarrow> length xs \<le> length ts \<and> list_all (fix_ok u) (zip xs ts)"
proof
  assume a: "first_failure u xs ts = length xs"
  then show "length xs \<le> length ts \<and> list_all (fix_ok u) (zip xs ts)"
  proof (induction xs arbitrary: ts)
    case Nil
    then show ?case by simp
  next
    case (Cons x xs)
    then show ?case by (cases ts) (auto simp: first_failure_Cons split: if_splits)
  qed
next
  assume "length xs \<le> length ts \<and> list_all (fix_ok u) (zip xs ts)"
  then show "first_failure u xs ts = length xs" by (simp add: first_failure_all)
qed

lemma update_entry_IndexError:
  "update_entry u self e ts = (e', rest, Some IndexError) \<Longrightarrow>
     first_failure u (slot_sources e) ts < length (slot_sources e) \<and>
     first_failure u (slot_sources e) ts < length ts \<and>
     \<not> fix_ok u (slot_sources e ! first_failure u (slot_sources e) ts,
                 ts ! first_failure u (slot_sources e) ts) \<and>
     rest = drop (Suc (first_failure u (slot_sources e) ts)) ts"
  by (auto simp: update_entry_def slot_sources_def Let_def first_failure_Cons fix_ok_def
           split: if_splits list.splits sum.splits)

lemma update_translations_IndexError:
  "update_translations u tr self po ts = (po', rest, Some IndexError) \<Longrightarrow>
     first_failure u (sources tr self po) ts < length (sources tr self po) \<and>
     first_failure u (sources tr self po) ts < length ts \<and>
     \<not> fix_ok u (sources tr self po ! first_failure u (sources tr self po) ts,
                 ts ! first_failure u (sources tr self po) ts) \<and>
     rest = drop (Suc (first_failure u (sources tr self po) ts)) ts"
proof (induction po arbitrary: ts po')
  case Nil
  then show ?case by simp
next
  case (Cons e po)
  show ?case
  proof (cases "need_translate tr self e")
    case False
    with Cons.prems obtain p1 where "update_translations u tr self po ts = (p1, rest, Some IndexError)"
      by (auto split: prod.splits)
    from Cons.IH[OF this] False show ?thesis by (simp add: sources_Cons)
  next
    case True
    let ?xs = "slot_sources e"
    let ?ys = "sources tr self po"
    have s: "sources tr self (e # po) = ?xs @ ?ys" using True by (simp add: sources_Cons)
    obtain e1 r1 err1 where ue: "update_entry u self e ts = (e1, r1, err1)"
      by (cases "update_entry u self e ts") auto
    show ?thesis
    proof (cases err1)
      case (Some x)
      with ue True Cons.prems have "x = IndexError" "r1 = rest" by auto
      with ue Some have "update_entry u self e ts = (e1, rest, Some IndexError)" by simp
      from update_entry_IndexError[OF this]
      have j: "first_failure u ?xs ts < length ?xs" "first_failure u ?xs ts < length ts"
        "\<not> fix_ok u (?xs ! first_failure u ?xs ts, ts ! first_failure u ?xs ts)"
        "rest = drop (Suc (first_failure u ?xs ts)) ts" by simp_all
      from first_failure_early[OF j(1)] have "first_failure u (?xs @ ?ys) ts = first_failure u ?xs ts" .
      with j show ?thesis unfolding s by (simp add: nth_append)
    next
      case None
      with ue True Cons.prems obtain p1 where
        r: "update_translations u tr self po r1 = (p1, rest, Some IndexError)"
        by (auto split: prod.splits)
      from ue None update_entry_None have len: "length ?xs \<le> length ts"
        and r1: "r1 = drop (length ?xs) ts" by blast+
      from ue None update_entry_fix_ok have "list_all (fix_ok u) (zip ?xs ts)" by blast
      with len have "first_failure u ?xs ts = length ?xs" by (rule first_failure_all)
      from first_failure_late[OF this]
      have ff: "first_failure u (?xs @ ?ys) ts = length ?xs + first_failure u ?ys r1"
        using r1 by simp
      from Cons.IH[OF r]
      have j: "first_failure u ?ys r1 < length ?ys" "first_failure u ?ys r1 < length r1"
        "\<not> fix_ok u (?ys ! first_failure u ?ys r1, r1 ! first_failure u ?ys r1)"
        "rest = drop (Suc (first_failure u ?ys r1)) r1" by simp_all
      from j(2) r1 have lt: "length ?xs + first_failure u ?ys r1 < length ts" by simp
      from r1 len have n: "r1 ! first_failure u ?ys r1 = ts ! (length ?xs + first_failure u ?ys r1)"
        by simp
      from j(4) r1 have d: "rest = drop (Suc (length ?xs + first_failure u ?ys r1)) ts"
        by (simp add: add.commute)
      from j(1) j(3) lt n d show ?thesis unfolding s ff by (simp add: nth_append)
    qed
  qed
qed

lemma update_translations_StopIteration:
  "update_translations u tr self po ts = (po', rest, Some StopIteration) \<Longrightarrow>
     length ts < length (sources tr self po) \<and> rest = []"
proof (induction po arbitrary: ts po')
  case Nil
  then show ?case by simp
next
  case (Cons e po)
  show ?case
  proof (cases "need_translate tr self e")
    case False
    with Cons.prems obtain p1 where "update_translations u tr self po ts = (p1, rest, Some StopIteration)"
      by (auto split: prod.splits)
    from Cons.IH[OF this] False show ?thesis by (simp add: sources_Cons)
  next
    case True
    obtain e1 r1 err1 where ue: "update_entry u self e ts = (e1, r1, err1)"
      by (cases "update_entry u self e ts") auto
    show ?thesis
    proof (cases err1)
      case (Some x)
      with ue True Cons.prems have "update_entry u self e ts = (e1, rest, Some StopIteration)"
        by auto
      then have "length ts < length (slot_sources e) \<and> rest = []"
        by (auto simp: update_entry_def slot_sources_def Let_def
                 split: if_splits list.splits sum.splits dest: fix_translation_error)
      with True show ?thesis by (simp add: sources_Cons)
    next
      case None
      with ue True Cons.prems obtain p1 where
        r: "update_translations u tr self po r1 = (p1, rest, Some StopIteration)"
        by (auto split: prod.splits)
      from ue None update_entry_None have "length (slot_sources e) \<le> length ts"
        and "r1 = drop (length (slot_sources e)) ts" by blast+
      with Cons.IH[OF r] True show ?thesis by (auto simp: sources_Cons)
    qed
  qed
qed


section \<open>Claims about the two passes\<close>

lemma need_translate_po_translated: "need_translate po_translated self e"
  by (simp add: need_translate_def po_translated_def)

text \<open>
  Claim C1. In untranslated-only mode an entry that is translated and not obsolete is to be
  left out. The code keeps it: whatever the mode and whatever \<^verbatim>\<open>translated()\<close> says, an
  entry that is not obsolete needs translation.
\<close>

theorem need_translate_not_obsolete:
  "\<not> obsolete entry \<Longrightarrow> need_translate translated self entry"
  by (simp add: need_translate_def)

theorem need_translate_not_obsolete_witness:
  "skip_translated untranslated_only \<and> po_translated entry_hello \<and> \<not> obsolete entry_hello \<and>
   need_translate po_translated untranslated_only entry_hello"
proof -
  have h: "\<not> obsolete entry_hello" by (simp add: entry_hello_def)
  have t: "po_translated entry_hello" by code_simp
  from need_translate_not_obsolete[OF h]
  have "need_translate po_translated untranslated_only entry_hello" .
  with h t show ?thesis by (simp add: untranslated_only_def)
qed




text \<open>
  Claim C4, as stated: with a list of length N + M the update consumes all N + M
  translations. An IndexError of \<^verbatim>\<open>fix_translation\<close> ends the call before that: two
  singular entries, two translations, the first of them carrying a token its msgid has no
  placeholder for; the second translation is never consumed.
\<close>

theorem translation_count_counterexample:
  "length [str ''__x__'', str ''Nuevo''] =
     length (filter (need_translate po_translated untranslated_only) [entry_hello, entry_new]) +
     length (filter (\<lambda>e. need_translate po_translated untranslated_only e \<and> msgid_plural e \<noteq> [])
               [entry_hello, entry_new]) \<and>
   update_translations example_db po_translated untranslated_only [entry_hello, entry_new]
       [str ''__x__'', str ''Nuevo''] =
     ([entry_hello, entry_new], [str ''Nuevo''], Some IndexError)"
  by code_simp

text \<open>
  Claim C4, amended. With N entries needing translation, M of them with a plural form,
  \<^verbatim>\<open>get_strings_to_translate\<close> returns N + M strings. Given N + M translations,
  \<^verbatim>\<open>update_translations\<close> never exhausts the iterator; it returns exactly when every
  \<^verbatim>\<open>fix_translation\<close> does, and then no translation is left. When it raises IndexError,
  it does so at the first translation whose \<^verbatim>\<open>fix_translation\<close> raises, having consumed
  the translations up to and including that one; the later ones stay in the iterator.
  Both passes visit the same entries in catalog order: the strings of an entry sit in the
  extracted list where the strings of the entries before it end, one for a singular entry
  and two for a plural one; when the loop gets to the entry, it is updated by the loop body
  from the translations at those positions, and otherwise it is left as given.
\<close>

theorem translation_count_invariant:
  assumes n: "n = length (filter (need_translate translated self) po)"
    and m: "m = length (filter (\<lambda>e. need_translate translated self e \<and> msgid_plural e \<noteq> []) po)"
  shows "length (get_strings_to_translate u translated self po) = n + m \<and>
    (\<forall>ts po' rest err.
       length ts = n + m \<and> update_translations u translated self po ts = (po', rest, err) \<longrightarrow>
         err \<noteq> Some StopIteration \<and>
         (err = None \<longleftrightarrow> list_all (fix_ok u) (zip (sources translated self po) ts)) \<and>
         (err = None \<longrightarrow> rest = []) \<and>
         (err = Some IndexError \<longrightarrow>
            first_failure u (sources translated self po) ts < n + m \<and>
            \<not> fix_ok u (sources translated self po ! first_failure u (sources translated self po) ts,
                        ts ! first_failure u (sources translated self po) ts) \<and>
            rest = drop (Suc (first_failure u (sources translated self po) ts)) ts)) \<and>
    (\<forall>pre e post. po = pre @ e # post \<and> need_translate translated self e \<longrightarrow>
       (let k = length (get_strings_to_translate u translated self pre);
            c = (if msgid_plural e \<noteq> [] then 2 else 1)
        in take c (drop k (get_strings_to_translate u translated self po)) =
             map (humanize_placeholders u) (slot_sources e) \<and>
           (\<forall>ts. fst (update_translations u translated self po ts) ! length pre =
                   (if reached u translated self po ts (length pre)
                    then fst (update_entry u self e (drop k ts)) else e))))"
proof (intro conjI allI impI)
  have len: "length (get_strings_to_translate u translated self po) =
      length (sources translated self po)"
    by (simp add: get_strings_sources)
  then show nm: "length (get_strings_to_translate u translated self po) = n + m"
    using n m by (simp add: length_sources)
  {
    fix ts po' rest err
    assume a: "length ts = n + m \<and> update_translations u translated self po ts = (po', rest, err)"
    then have l: "length (sources translated self po) \<le> length ts" using nm len by simp
    from a have run: "update_translations u translated self po ts = (po', rest, err)" by simp
    show "err \<noteq> Some StopIteration"
    proof
      assume "err = Some StopIteration"
      with run update_translations_enough[OF l] show False by blast
    qed
    show "err = None \<longleftrightarrow> list_all (fix_ok u) (zip (sources translated self po) ts)"
    proof
      assume "err = None"
      with run show "list_all (fix_ok u) (zip (sources translated self po) ts)"
        using update_translations_fix_ok by blast
    next
      assume "list_all (fix_ok u) (zip (sources translated self po) ts)"
      from update_translations_ok[OF l this] run show "err = None" by auto
    qed
    {
      assume "err = None"
      with run have "update_translations u translated self po ts = (po', rest, None)" by simp
      from update_translations_None[OF this] a nm len show "rest = []" by simp
    }
    {
      assume "err = Some IndexError"
      with run have "update_translations u translated self po ts = (po', rest, Some IndexError)"
        by simp
      note I = update_translations_IndexError[OF this]
      from I nm len show "first_failure u (sources translated self po) ts < n + m" by simp
      from I show "\<not> fix_ok u (sources translated self po ! first_failure u (sources translated self po) ts,
                        ts ! first_failure u (sources translated self po) ts)" by simp
      from I show "rest = drop (Suc (first_failure u (sources translated self po) ts)) ts" by simp
    }
  }
  fix pre e post
  assume b: "po = pre @ e # post \<and> need_translate translated self e"
  let ?k = "length (get_strings_to_translate u translated self pre)"
  let ?c = "if msgid_plural e \<noteq> [] then 2 else 1 :: nat"
  have k: "?k = length (sources translated self pre)" by (simp add: get_strings_sources)
  have c: "?c = length (slot_sources e)" by (simp add: slot_sources_def)
  have g: "get_strings_to_translate u translated self po =
      get_strings_to_translate u translated self pre @ map (humanize_placeholders u) (slot_sources e) @
      get_strings_to_translate u translated self post"
    using b by (simp add: get_strings_append slot_sources_def)
  have t: "take ?c (drop ?k (get_strings_to_translate u translated self po)) =
      map (humanize_placeholders u) (slot_sources e)"
    unfolding g c by simp
  have i: "length pre < length po" using b by simp
  have e: "po ! length pre = e" "take (length pre) po = pre" using b by simp_all
  have u: "fst (update_translations u translated self po ts) ! length pre =
      (if reached u translated self po ts (length pre)
       then fst (update_entry u self e (drop ?k ts)) else e)" for ts
    using update_translations_nth[OF i, of u translated self ts] b unfolding e k by simp
  from t u show "let k = ?k; c = ?c
      in take c (drop k (get_strings_to_translate u translated self po)) =
           map (humanize_placeholders u) (slot_sources e) \<and>
         (\<forall>ts. fst (update_translations u translated self po ts) ! length pre =
                 (if reached u translated self po ts (length pre)
                  then fst (update_entry u self e (drop k ts)) else e))"
    unfolding Let_def by blast
qed


theorem translation_count_invariant_witness:
  "length (filter (need_translate po_translated untranslated_only) [entry_items, entry_new]) = 2 \<and>
   length (filter (\<lambda>e. need_translate po_translated untranslated_only e \<and> msgid_plural e \<noteq> [])
             [entry_items, entry_new]) = 1 \<and>
   length (get_strings_to_translate example_db po_translated untranslated_only
             [entry_items, entry_new]) = 2 + 1 \<and>
   update_translations example_db po_translated untranslated_only [entry_items, entry_new]
      [str ''__number__ cosa'', str ''__number__ cosas'', str ''Nuevo''] =
     ([entry_items\<lparr>msgstr_plural :=
         [(0, str ''%d cosa''), (1, str ''%d cosas''), (2, str ''%d cosas'')]\<rparr>,
       entry_new\<lparr>msgstr := str ''Nuevo''\<rparr>], [], None) \<and>
   list_all (fix_ok example_db)
     (zip (sources po_translated untranslated_only [entry_items, entry_new])
        [str ''__number__ cosa'', str ''__number__ cosas'', str ''Nuevo'']) \<and>
   update_translations example_db po_translated untranslated_only [entry_items, entry_new]
      [str ''__number__ cosa'', str ''__a__ __b__'', str ''Nuevo''] =
     ([entry_items\<lparr>msgstr_plural := [(0, str ''%d cosa''), (1, []), (2, [])]\<rparr>, entry_new],
      [str ''Nuevo''], Some IndexError) \<and>
   first_failure example_db (sources po_translated untranslated_only [entry_items, entry_new])
      [str ''__number__ cosa'', str ''__a__ __b__'', str ''Nuevo''] = 1 \<and>
   drop (Suc 1) [str ''__number__ cosa'', str ''__a__ __b__'', str ''Nuevo''] = [str ''Nuevo'']"
proof -
  let ?po = "[entry_items, entry_new]"
  let ?ts = "[str ''__number__ cosa'', str ''__number__ cosas'', str ''Nuevo'']"
  let ?bad = "[str ''__number__ cosa'', str ''__a__ __b__'', str ''Nuevo'']"
  let ?po' = "[entry_items\<lparr>msgstr_plural :=
         [(0, str ''%d cosa''), (1, str ''%d cosas''), (2, str ''%d cosas'')]\<rparr>,
       entry_new\<lparr>msgstr := str ''Nuevo''\<rparr>]"
  let ?half = "[entry_items\<lparr>msgstr_plural := [(0, str ''%d cosa''), (1, []), (2, [])]\<rparr>, entry_new]"
  have n: "2 = length (filter (need_translate po_translated untranslated_only) ?po)"
    by code_simp
  have m: "1 = length (filter (\<lambda>e. need_translate po_translated untranslated_only e \<and>
      msgid_plural e \<noteq> []) ?po)"
    by code_simp
  have run: "update_translations example_db po_translated untranslated_only ?po ?ts = (?po', [], None)"
    by code_simp
  have bad: "update_translations example_db po_translated untranslated_only ?po ?bad =
      (?half, [str ''Nuevo''], Some IndexError)"
    by code_simp
  have ff: "first_failure example_db (sources po_translated untranslated_only ?po) ?bad = 1"
    by code_simp
  have lts: "length ?ts = 2 + 1" by simp
  have lbad: "length ?bad = 2 + 1" by simp
  note T = translation_count_invariant[OF n m, of example_db]
  from T have c1: "length (get_strings_to_translate example_db po_translated untranslated_only ?po) = 2 + 1"
    by (rule conjunct1)
  from T[THEN conjunct2, THEN conjunct1, rule_format, OF conjI[OF lts run]]
  have c2: "list_all (fix_ok example_db) (zip (sources po_translated untranslated_only ?po) ?ts)"
    by blast
  from T[THEN conjunct2, THEN conjunct1, rule_format, OF conjI[OF lbad bad]]
  have "[str ''Nuevo''] =
      drop (Suc (first_failure example_db (sources po_translated untranslated_only ?po) ?bad)) ?bad"
    by blast
  then have c3: "drop (Suc 1) ?bad = [str ''Nuevo'']" unfolding ff by simp
  from n m c1 run c2 bad ff c3 show ?thesis
    by (simp del: update_translations.simps get_strings_to_translate.simps)
qed



lemma flags_flag_fuzzy:
  "flags (flag_fuzzy self e) =
     (if set_fuzzy self \<and> str ''fuzzy'' \<notin> set (flags e) then flags e @ [str ''fuzzy''] else flags e)"
  by (simp add: flag_fuzzy_def)

lemma msgstr_plural_flag_fuzzy [simp]: "msgstr_plural (flag_fuzzy self e) = msgstr_plural e"
  by (simp add: flag_fuzzy_def)


text \<open>The loop body on an entry with a plural form, by how far it gets.\<close>

lemma update_entry_plural_none:
  "msgid_plural e \<noteq> [] \<Longrightarrow>
   ts = [] \<or> (\<exists>x. fix_translation u (msgid e) (hd ts) = Inl x) \<Longrightarrow>
   fst (update_entry u self e ts) = e"
  by (cases ts) (auto simp: update_entry_def)







lemma update_entry_flags:
  "update_entry u self e ts = (e', rest, err) \<Longrightarrow>
     flags e' = (if err = None then flags (flag_fuzzy self e) else flags e)"
  by (auto simp: update_entry_def Let_def flag_fuzzy_def split: list.splits sum.splits if_splits)

lemma reached_Suc:
  assumes i: "i < length po"
  shows "reached u tr self po ts (Suc i) \<longleftrightarrow>
           reached u tr self po ts i \<and>
           (need_translate tr self (po ! i) \<longrightarrow>
              snd (snd (update_entry u self (po ! i)
                          (drop (length (sources tr self (take i po))) ts))) = None)"
proof -
  from i have t: "take (Suc i) po = take i po @ [po ! i]" by (simp add: take_Suc_conv_app_nth)
  obtain pre' r1 err1 where p: "update_translations u tr self (take i po) ts = (pre', r1, err1)"
    by (cases "update_translations u tr self (take i po) ts") auto
  show ?thesis
  proof (cases err1)
    case (Some x)
    with p show ?thesis
      by (simp add: reached_def t update_translations_append)
  next
    case None
    with p have r1: "r1 = drop (length (sources tr self (take i po))) ts"
      using update_translations_None by blast
    obtain e' r2 err2 where ue: "update_entry u self (po ! i) r1 = (e', r2, err2)"
      by (cases "update_entry u self (po ! i) r1") auto
    from p None ue r1 show ?thesis
      by (cases err2) (auto simp: reached_def t update_translations_append split: prod.splits)
  qed
qed

lemma update_translations_flags:
  assumes "i < length po"
  shows "flags (fst (update_translations u tr self po ts) ! i) = flags (po ! i) \<or>
         (set_fuzzy self \<and> str ''fuzzy'' \<notin> set (flags (po ! i)) \<and>
          flags (fst (update_translations u tr self po ts) ! i) = flags (po ! i) @ [str ''fuzzy''])"
proof -
  let ?e = "po ! i"
  let ?r = "drop (length (sources tr self (take i po))) ts"
  obtain e' r2 err2 where ue: "update_entry u self ?e ?r = (e', r2, err2)"
    by (cases "update_entry u self ?e ?r") auto
  from update_entry_flags[OF ue] have "flags e' = flags ?e \<or> flags e' = flags (flag_fuzzy self ?e)"
    by (simp split: if_splits)
  then have "flags e' = flags ?e \<or>
      (set_fuzzy self \<and> str ''fuzzy'' \<notin> set (flags ?e) \<and> flags e' = flags ?e @ [str ''fuzzy''])"
    by (auto simp: flags_flag_fuzzy split: if_splits)
  with update_translations_nth[OF assms, of u tr self ts] ue show ?thesis
    by (auto split: if_splits)
qed

text \<open>
  Claim C9, as stated: with \<^verbatim>\<open>set_fuzzy\<close> every entry processed by \<^verbatim>\<open>update_translations\<close>
  carries \<^verbatim>\<open>fuzzy\<close> afterwards. An entry with a plural form whose first translation is
  consumed and stored when the iterator runs out is changed and not flagged: the flag is
  set at the end of the loop body, which StopIteration leaves before.
\<close>

theorem update_translations_fuzzy_counterexample:
  "set_fuzzy mark_fuzzy \<and> need_translate po_translated mark_fuzzy entry_items \<and>
   update_translations example_db po_translated mark_fuzzy [entry_items] [str ''uno''] =
     ([entry_items\<lparr>msgstr_plural := [(0, str ''uno''), (1, []), (2, [])]\<rparr>], [],
      Some StopIteration) \<and>
   entry_items\<lparr>msgstr_plural := [(0, str ''uno''), (1, []), (2, [])]\<rparr> \<noteq> entry_items \<and>
   str ''fuzzy'' \<notin> set (flags (entry_items\<lparr>msgstr_plural := [(0, str ''uno''), (1, []), (2, [])]\<rparr>))"
  by code_simp

text \<open>
  Claim C9, amended. Whichever way the call ends, the flag list of an entry after it is
  the list before, or that list with \<^verbatim>\<open>fuzzy\<close> appended once where it was missing and
  \<^verbatim>\<open>set_fuzzy\<close> holds. With \<^verbatim>\<open>set_fuzzy\<close>, an entry that needs translation and whose
  loop body runs to its end (the call on the entries up to and including it returns)
  carries \<^verbatim>\<open>fuzzy\<close> afterwards: its flag list is kept when the flag was there, so one
  occurrence stays one, and gets the flag appended once otherwise. A further call, whatever
  its options and translations and however it ends, leaves that flag list as it is. An
  entry whose loop body an exception cuts short is not flagged.
\<close>

theorem update_translations_fuzzy:
  assumes "i < length po"
    and "po' = fst (update_translations u translated self po ts)"
  shows "(flags (po' ! i) = flags (po ! i) \<or>
          (set_fuzzy self \<and> str ''fuzzy'' \<notin> set (flags (po ! i)) \<and>
           flags (po' ! i) = flags (po ! i) @ [str ''fuzzy''])) \<and>
         (set_fuzzy self \<and> need_translate translated self (po ! i) \<and>
          reached u translated self po ts (Suc i) \<longrightarrow>
            str ''fuzzy'' \<in> set (flags (po' ! i)) \<and>
            flags (po' ! i) =
              (if str ''fuzzy'' \<in> set (flags (po ! i)) then flags (po ! i)
               else flags (po ! i) @ [str ''fuzzy'']) \<and>
            count_list (flags (po' ! i)) (str ''fuzzy'') =
              max 1 (count_list (flags (po ! i)) (str ''fuzzy'')) \<and>
            (\<forall>u2 translated2 self2 ts2.
               flags (fst (update_translations u2 translated2 self2 po' ts2) ! i) = flags (po' ! i))) \<and>
         (need_translate translated self (po ! i) \<and> reached u translated self po ts i \<and>
          \<not> reached u translated self po ts (Suc i) \<longrightarrow> flags (po' ! i) = flags (po ! i))"
proof -
  let ?e = "po ! i"
  let ?r = "drop (length (sources translated self (take i po))) ts"
  have general: "flags (po' ! i) = flags ?e \<or>
      (set_fuzzy self \<and> str ''fuzzy'' \<notin> set (flags ?e) \<and> flags (po' ! i) = flags ?e @ [str ''fuzzy''])"
    unfolding assms(2) using update_translations_flags[OF assms(1)] .
  obtain e' r2 err2 where ue: "update_entry u self ?e ?r = (e', r2, err2)"
    by (cases "update_entry u self ?e ?r") auto
  {
    assume sf: "set_fuzzy self" and need: "need_translate translated self ?e"
      and re: "reached u translated self po ts (Suc i)"
    from re reached_Suc[OF assms(1), of u translated self ts] need
    have ri: "reached u translated self po ts i" and fin: "snd (snd (update_entry u self ?e ?r)) = None"
      by simp_all
    from fin ue have "err2 = None" by simp
    with update_entry_flags[OF ue] have "flags e' = flags (flag_fuzzy self ?e)" by simp
    moreover from update_translations_nth[OF assms(1), of u translated self ts] need ri ue
    have "po' ! i = e'" unfolding assms(2) by simp
    ultimately have f: "flags (po' ! i) =
        (if str ''fuzzy'' \<in> set (flags ?e) then flags ?e else flags ?e @ [str ''fuzzy''])"
      using sf by (simp add: flags_flag_fuzzy)
    then have mem: "str ''fuzzy'' \<in> set (flags (po' ! i))" by (simp split: if_splits)
    have cnt: "count_list (flags (po' ! i)) (str ''fuzzy'') =
        max 1 (count_list (flags ?e) (str ''fuzzy''))"
    proof (cases "str ''fuzzy'' \<in> set (flags ?e)")
      case True
      then have "count_list (flags ?e) (str ''fuzzy'') \<noteq> 0" by (simp add: count_list_0_iff)
      then have "0 < count_list (flags ?e) (str ''fuzzy'')" by simp
      with True f show ?thesis by simp
    next
      case False
      then have "count_list (flags ?e) (str ''fuzzy'') = 0" by (simp add: count_list_0_iff)
      with False f show ?thesis by simp
    qed
    have again: "flags (fst (update_translations u2 translated2 self2 po' ts2) ! i) = flags (po' ! i)"
      for u2 translated2 self2 ts2
    proof -
      have "length po' = length po" unfolding assms(2) by (rule length_fst_update_translations)
      with assms(1) have "i < length po'" by simp
      from update_translations_flags[OF this, of u2 translated2 self2 ts2] mem show ?thesis
        by auto
    qed
    from mem f cnt again
    have "str ''fuzzy'' \<in> set (flags (po' ! i)) \<and>
            flags (po' ! i) =
              (if str ''fuzzy'' \<in> set (flags (po ! i)) then flags (po ! i)
               else flags (po ! i) @ [str ''fuzzy'']) \<and>
            count_list (flags (po' ! i)) (str ''fuzzy'') =
              max 1 (count_list (flags (po ! i)) (str ''fuzzy'')) \<and>
            (\<forall>u2 translated2 self2 ts2.
               flags (fst (update_translations u2 translated2 self2 po' ts2) ! i) = flags (po' ! i))"
      by blast
  }
  note end_case = this
  {
    assume need: "need_translate translated self ?e" and ri: "reached u translated self po ts i"
      and nre: "\<not> reached u translated self po ts (Suc i)"
    from nre reached_Suc[OF assms(1), of u translated self ts] need ri
    have "snd (snd (update_entry u self ?e ?r)) \<noteq> None" by simp
    with ue have "err2 \<noteq> None" by simp
    with update_entry_flags[OF ue] have "flags e' = flags ?e" by simp
    moreover from update_translations_nth[OF assms(1), of u translated self ts] need ri ue
    have "po' ! i = e'" unfolding assms(2) by simp
    ultimately have "flags (po' ! i) = flags ?e" by simp
  }
  note cut_case = this
  from general end_case cut_case show ?thesis by blast
qed

theorem update_translations_fuzzy_witness:
  "set_fuzzy mark_fuzzy \<and>
   need_translate po_translated mark_fuzzy ([entry_new, entry_items] ! 0) \<and>
   reached example_db po_translated mark_fuzzy [entry_new, entry_items]
      [str ''Nuevo'', str ''uno''] (Suc 0) \<and>
   update_translations example_db po_translated mark_fuzzy [entry_new, entry_items]
      [str ''Nuevo'', str ''uno''] =
     ([entry_new\<lparr>msgstr := str ''Nuevo'', flags := [str ''fuzzy'']\<rparr>,
       entry_items\<lparr>msgstr_plural := [(0, str ''uno''), (1, []), (2, [])]\<rparr>], [],
      Some StopIteration) \<and>
   flags (entry_new\<lparr>msgstr := str ''Nuevo'', flags := [str ''fuzzy'']\<rparr>) = [str ''fuzzy''] \<and>
   flags (fst (update_translations example_db po_translated mark_fuzzy
                 [entry_new\<lparr>msgstr := str ''Nuevo'', flags := [str ''fuzzy'']\<rparr>,
                  entry_items\<lparr>msgstr_plural := [(0, str ''uno''), (1, []), (2, [])]\<rparr>]
                 [str ''Otro'', str ''uno'', str ''varios'']) ! 0) = [str ''fuzzy'']"
proof -
  let ?po = "[entry_new, entry_items]"
  let ?ts = "[str ''Nuevo'', str ''uno'']"
  let ?e1 = "entry_new\<lparr>msgstr := str ''Nuevo'', flags := [str ''fuzzy'']\<rparr>"
  let ?e2 = "entry_items\<lparr>msgstr_plural := [(0, str ''uno''), (1, []), (2, [])]\<rparr>"
  have sf: "set_fuzzy mark_fuzzy" by (simp add: mark_fuzzy_def)
  have i: "0 < length ?po" by simp
  have need: "need_translate po_translated mark_fuzzy (?po ! 0)" by code_simp
  have re: "reached example_db po_translated mark_fuzzy ?po ?ts (Suc 0)" by code_simp
  have run: "update_translations example_db po_translated mark_fuzzy ?po ?ts =
      ([?e1, ?e2], [], Some StopIteration)" by code_simp
  have po': "[?e1, ?e2] = fst (update_translations example_db po_translated mark_fuzzy ?po ?ts)"
    unfolding run by simp
  have f0: "flags (?po ! 0) = []" by (simp add: entry_new_def)
  note T = update_translations_fuzzy[OF i po', THEN conjunct2, THEN conjunct1, rule_format,
      OF conjI[OF sf conjI[OF need re]]]
  from T have c1: "flags ([?e1, ?e2] ! 0) =
      (if str ''fuzzy'' \<in> set (flags (?po ! 0)) then flags (?po ! 0)
       else flags (?po ! 0) @ [str ''fuzzy''])" by blast
  then have c1': "flags ?e1 = [str ''fuzzy'']" unfolding f0 by simp
  from T have "\<forall>u2 translated2 self2 ts2.
      flags (fst (update_translations u2 translated2 self2 [?e1, ?e2] ts2) ! 0) = flags ([?e1, ?e2] ! 0)"
    by blast
  from this[rule_format, of example_db po_translated mark_fuzzy "[str ''Otro'', str ''uno'', str ''varios'']"]
  have c2: "flags (fst (update_translations example_db po_translated mark_fuzzy [?e1, ?e2]
      [str ''Otro'', str ''uno'', str ''varios'']) ! 0) = [str ''fuzzy'']"
    using c1' by simp
  from sf need re run c1' c2 show ?thesis by blast
qed


section \<open>The text transformations\<close>


lemma placeholder_scan_induct [case_names Nil Match Skip]:
  assumes "P []"
    and "\<And>c r g1 g2 rest. match_placeholder u (c # r) = Some (g1, g2, rest) \<Longrightarrow> P rest \<Longrightarrow> P (c # r)"
    and "\<And>c r. match_placeholder u (c # r) = None \<Longrightarrow> P r \<Longrightarrow> P (c # r)"
  shows "P s"
proof (induction s rule: length_induct)
  case (1 s)
  show ?case
  proof (cases s)
    case Nil
    with assms(1) show ?thesis by simp
  next
    case (Cons c r)
    show ?thesis
    proof (cases "match_placeholder u (c # r)")
      case None
      from 1 Cons have "P r" by simp
      with assms(3)[OF None] Cons show ?thesis by simp
    next
      case (Some m)
      then obtain g1 g2 rest where m: "match_placeholder u (c # r) = Some (g1, g2, rest)"
        by (cases m) auto
      from match_placeholder_shorter[OF m] 1 Cons have "P rest" by simp
      with assms(2)[OF m] Cons show ?thesis by simp
    qed
  qed
qed









lemma match_token_underscore:
  "match_token u s = Some (a, t, b, r) \<Longrightarrow> chr CHR ''_'' \<in> set s"
proof -
  assume "match_token u s = Some (a, t, b, r)"
  then obtain s2 where "dropWhile (is_space u) s = chr CHR ''_'' # chr CHR ''_'' # s2"
    by (auto simp: match_token_def Let_def split: list.splits if_splits option.splits)
  then have "chr CHR ''_'' \<in> set (dropWhile (is_space u) s)" by simp
  then show ?thesis by (metis set_dropWhileD)
qed

lemma restore_sub_plain: "chr CHR ''_'' \<notin> set t \<Longrightarrow> restore_sub u phs t = Inr t"
proof (induction t)
  case Nil
  then show ?case by simp
next
  case (Cons c r)
  have "match_token u (c # r) = None"
  proof (cases "match_token u (c # r)")
    case None
    then show ?thesis .
  next
    case (Some m)
    then obtain a t b r' where "match_token u (c # r) = Some (a, t, b, r')" by (cases m) auto
    from match_token_underscore[OF this] Cons.prems show ?thesis by simp
  qed
  with Cons show ?case by simp
qed

lemma is_word_paren [simp]: "\<not> is_word u (chr CHR '')'')"
  by (simp add: is_word_def)

lemma match_kind_Some:
  "match_kind r = Some (k, r') \<longleftrightarrow> r = k # r' \<and> (k = chr CHR ''s'' \<or> k = chr CHR ''d'')"
  by (cases r) (auto simp: match_kind_def)

lemma match_group_Some:
  "match_group u r = Some (name, r') \<longleftrightarrow>
     r = chr CHR ''('' # name @ chr CHR '')'' # r' \<and> name \<noteq> [] \<and> list_all (is_word u) name"
proof
  assume a: "match_group u r = Some (name, r')"
  then obtain r1 where r: "r = chr CHR ''('' # r1"
    by (cases r) (auto simp: match_group_def split: if_splits)
  from a r have n: "name = takeWhile (is_word u) r1" and ne: "name \<noteq> []"
    and d: "dropWhile (is_word u) r1 = chr CHR '')'' # r'"
    by (auto simp: match_group_def Let_def split: list.splits if_splits)
  have "r1 = takeWhile (is_word u) r1 @ dropWhile (is_word u) r1" by simp
  with n d have "r1 = name @ chr CHR '')'' # r'" by simp
  moreover have "list_all (is_word u) name" unfolding n list_all_iff
    by (auto dest: set_takeWhileD)
  ultimately show "r = chr CHR ''('' # name @ chr CHR '')'' # r' \<and> name \<noteq> [] \<and>
      list_all (is_word u) name"
    using r ne by simp
next
  assume b: "r = chr CHR ''('' # name @ chr CHR '')'' # r' \<and> name \<noteq> [] \<and> list_all (is_word u) name"
  then have all: "\<forall>x\<in>set name. is_word u x" by (simp add: list_all_iff)
  have np: "\<not> is_word u (chr CHR '')'')" by (rule is_word_paren)
  have t: "takeWhile (is_word u) (name @ chr CHR '')'' # r') = name"
    using all np by (simp only: takeWhile_append2 takeWhile.simps if_False append_Nil2)
  have d: "dropWhile (is_word u) (name @ chr CHR '')'' # r') = chr CHR '')'' # r'"
    using all np by (simp only: dropWhile_append2 dropWhile.simps if_False)
  from b t d show "match_group u r = Some (name, r')"
    by (simp add: match_group_def Let_def)
qed

lemma match_placeholder_Some:
  "match_placeholder u s = Some (g1, g2, rest) \<Longrightarrow>
     is_placeholder u (matched_piece g1 g2) \<and> s = original (matched_piece g1 g2) @ rest"
  by (cases s)
     (auto simp: match_placeholder_def match_bare_def matched_piece_def match_kind_Some
                 match_group_Some str_def
           split: if_splits option.splits)

lemma match_placeholder_None:
  "match_placeholder u s = None \<Longrightarrow> \<not> placeholder_at_head u s"
proof
  assume n: "match_placeholder u s = None" and "placeholder_at_head u s"
  then obtain p r where p: "is_placeholder u p" and s: "s = original p @ r"
    by (auto simp: placeholder_at_head_def)
  show False
  proof (cases p)
    case (Lit c)
    with p show False by simp
  next
    case (Named name k)
    with p have g: "match_group u (chr CHR ''('' # name @ chr CHR '')'' # k # r) = Some (name, k # r)"
      by (simp add: match_group_Some)
    from Named p have k: "match_kind (k # r) = Some (k, r)" by (simp add: match_kind_Some)
    from Named s g k have "match_placeholder u s = Some (Some name, k, r)"
      by (simp add: match_placeholder_def str_def)
    with n show False by simp
  next
    case (Bare k)
    with p have k: "match_kind (k # r) = Some (k, r)" by (simp add: match_kind_Some)
    from Bare p have "match_group u (k # r) = None"
      by (auto simp: match_group_def)
    with Bare s k have "match_placeholder u s = Some (None, k, r)"
      by (simp add: match_placeholder_def match_bare_def)
    with n show False by simp
  qed
qed

lemma humanize_repl_piece: "humanize_repl u g1 g2 = humanized u (matched_piece g1 g2)"
  by (cases g1) (auto simp: humanize_repl_def matched_piece_def str_def)

lemma pieces_original: "concat (map original (pieces u s)) = s"
proof (induction s rule: placeholder_scan_induct[of _ u])
  case Nil
  then show ?case by simp
next
  case (Match c r g1 g2 rest)
  have "concat (map original (pieces u (c # r))) =
      original (matched_piece g1 g2) @ concat (map original (pieces u rest))"
    using Match by simp
  also have "\<dots> = original (matched_piece g1 g2) @ rest" using Match by simp
  also have "\<dots> = c # r" using match_placeholder_Some[OF Match(1)] by simp
  finally show ?case .
next
  case (Skip c r)
  then show ?case by simp
qed

lemma pieces_humanized: "humanize_placeholders u s = concat (map (humanized u) (pieces u s))"
  by (induction s rule: placeholder_scan_induct[of _ u]) (simp_all add: humanize_repl_piece)

lemma pieces_kinds: "p \<in> set (pieces u s) \<Longrightarrow> (\<exists>c. p = Lit c) \<or> is_placeholder u p"
proof (induction s rule: placeholder_scan_induct[of _ u])
  case Nil
  then show ?case by simp
next
  case (Match c r g1 g2 rest)
  from Match(1,3) have "p = matched_piece g1 g2 \<or> p \<in> set (pieces u rest)" by simp
  with Match(2) match_placeholder_Some[OF Match(1)] show ?case by blast
next
  case (Skip c r)
  then show ?case by auto
qed

lemma pieces_literal:
  "pieces u s = ps @ Lit c # qs \<Longrightarrow> \<not> placeholder_at_head u (c # concat (map original qs))"
proof (induction s arbitrary: ps rule: placeholder_scan_induct[of _ u])
  case Nil
  then show ?case by simp
next
  case (Match a r g1 g2 rest)
  then have p: "pieces u (a # r) = matched_piece g1 g2 # pieces u rest" by simp
  from match_placeholder_Some[OF Match(1)] have "matched_piece g1 g2 \<noteq> Lit c"
    by (cases g1) (auto simp: matched_piece_def)
  with p Match(3) obtain ps' where "pieces u rest = ps' @ Lit c # qs"
    by (cases ps) auto
  from Match(2)[OF this] show ?case .
next
  case (Skip a r)
  then have p: "pieces u (a # r) = Lit a # pieces u r" by simp
  show ?case
  proof (cases ps)
    case Nil
    with p Skip(3) have "a = c" "pieces u r = qs" by simp_all
    with pieces_original[of u r] have "c # concat (map original qs) = a # r" by simp
    with match_placeholder_None[OF Skip(1)] show ?thesis by simp
  next
    case (Cons x ps')
    with p Skip(3) have "pieces u r = ps' @ Lit c # qs" by simp
    from Skip(2)[OF this] show ?thesis .
  qed
qed


section \<open>Claims about the text transformations\<close>

text \<open>
  Claim C6. The input is, from left to right, a sequence of literal characters and
  placeholders \<^verbatim>\<open>%(name)s\<close>, \<^verbatim>\<open>%(name)d\<close>, \<^verbatim>\<open>%s\<close>, \<^verbatim>\<open>%d\<close>, in which no literal character
  stands where a placeholder begins. \<^verbatim>\<open>humanize_placeholders\<close> returns that sequence with
  every literal character kept and every placeholder replaced by its token: \<^verbatim>\<open>__name__\<close>
  with the name lower-cased, \<^verbatim>\<open>__number__\<close> for \<^verbatim>\<open>%d\<close>, \<^verbatim>\<open>__item__\<close> for \<^verbatim>\<open>%s\<close>.
\<close>

theorem humanize_placeholders_pieces:
  "concat (map original (pieces u s)) = s \<and>
   humanize_placeholders u s = concat (map (humanized u) (pieces u s)) \<and>
   (\<forall>p \<in> set (pieces u s). (\<exists>c. p = Lit c) \<or> is_placeholder u p) \<and>
   (\<forall>ps c qs. pieces u s = ps @ Lit c # qs \<longrightarrow>
      \<not> placeholder_at_head u (c # concat (map original qs)))"
  using pieces_original pieces_humanized pieces_kinds pieces_literal by blast

theorem humanize_placeholders_pieces_witness:
  "pieces example_db (str ''%(Name)s: %d of %s%'') =
     [Named (str ''Name'') (chr CHR ''s''), Lit (chr CHR '':''), Lit (chr CHR '' ''),
      Bare (chr CHR ''d''), Lit (chr CHR '' ''), Lit (chr CHR ''o''), Lit (chr CHR ''f''),
      Lit (chr CHR '' ''), Bare (chr CHR ''s''), Lit (chr CHR ''%'')] \<and>
   humanize_placeholders example_db (str ''%(Name)s: %d of %s%'') =
     str ''__name__: __number__ of __item__%'' \<and>
   \<not> placeholder_at_head example_db (str ''%'')"
proof -
  let ?s = "str ''%(Name)s: %d of %s%''"
  let ?ps = "[Named (str ''Name'') (chr CHR ''s''), Lit (chr CHR '':''), Lit (chr CHR '' ''),
      Bare (chr CHR ''d''), Lit (chr CHR '' ''), Lit (chr CHR ''o''), Lit (chr CHR ''f''),
      Lit (chr CHR '' ''), Bare (chr CHR ''s'')]"
  have p: "pieces example_db ?s = ?ps @ Lit (chr CHR ''%'') # []" by code_simp
  have h: "concat (map (humanized example_db) (?ps @ Lit (chr CHR ''%'') # [])) =
      str ''__name__: __number__ of __item__%''"
    by code_simp
  note T = humanize_placeholders_pieces[of example_db ?s]
  from T have "humanize_placeholders example_db ?s =
      concat (map (humanized example_db) (pieces example_db ?s))" by blast
  with p h have a: "humanize_placeholders example_db ?s = str ''__name__: __number__ of __item__%''"
    by simp
  from T[THEN conjunct2, THEN conjunct2, THEN conjunct2, rule_format, OF p]
  have b: "\<not> placeholder_at_head example_db (str ''%'')" by (simp add: str_def)
  from p a b show ?thesis by simp
qed




text \<open>
  Claim C8, as stated: a newline is appended whenever \<^verbatim>\<open>msgid\<close> ends with one and the
  given translation does not, and the translation's own ends are otherwise kept. For the
  msgid that is one newline and the empty translation, the claim asks for a newline in
  front and one behind; the code returns the single newline it put in front. For a msgid
  that starts with a newline and a translation that starts with a token, the newline put
  in front is taken into the token's match and replaced by the whitespace recorded in
  front of the placeholder, so the result starts with a blank.
\<close>

theorem fix_translation_newline_counterexample:
  "startswith_nl [NL] \<and> \<not> startswith_nl [] \<and> endswith_nl [NL] \<and> \<not> endswith_nl [] \<and>
   fix_translation example_db [NL] [] = Inr [NL] \<and>
   [NL] \<noteq> [NL] @ [] @ [NL] \<and>
   startswith_nl (NL # str ''A %s'') \<and> \<not> startswith_nl (str ''__item__ x'') \<and>
   fix_translation example_db (NL # str ''A %s'') (str ''__item__ x'') = Inr (str '' %sx'') \<and>
   \<not> startswith_nl (str '' %sx'')"
  by code_simp

text \<open>
  Claim C8, amended. \<^verbatim>\<open>fix_translation\<close> puts a newline in front of the translation if and
  only if \<^verbatim>\<open>msgid\<close> starts with one and the translation does not; it then puts a newline
  behind if and only if \<^verbatim>\<open>msgid\<close> ends with one and the text so far does not, that is, the
  translation does not end with one and is not the empty translation that has just been
  given the newline in front. The text so built goes to \<^verbatim>\<open>restore_placeholders\<close>; when the
  translation has no underscore, so no token, it is the result.
\<close>

theorem fix_translation_newlines:
  "fix_translation u source translation =
     restore_placeholders u source
       ((if startswith_nl source \<and> \<not> startswith_nl translation then [NL] else []) @
        translation @
        (if endswith_nl source \<and> \<not> endswith_nl translation \<and>
            \<not> (translation = [] \<and> startswith_nl source)
         then [NL] else [])) \<and>
   (chr CHR ''_'' \<notin> set translation \<longrightarrow>
      fix_translation u source translation =
        Inr ((if startswith_nl source \<and> \<not> startswith_nl translation then [NL] else []) @
             translation @
             (if endswith_nl source \<and> \<not> endswith_nl translation \<and>
                 \<not> (translation = [] \<and> startswith_nl source)
              then [NL] else [])))"
proof -
  let ?pre = "if startswith_nl source \<and> \<not> startswith_nl translation then [NL] else []"
  let ?post = "if endswith_nl source \<and> \<not> endswith_nl translation \<and>
            \<not> (translation = [] \<and> startswith_nl source) then [NL] else []"
  have a: "fix_translation u source translation =
      restore_placeholders u source (?pre @ translation @ ?post)"
    by (cases translation)
       (auto simp: fix_translation_def Let_def endswith_nl_def startswith_nl_def)
  have "chr CHR ''_'' \<notin> set (?pre @ translation @ ?post)" if "chr CHR ''_'' \<notin> set translation"
    using that by (simp add: NL_def)
  then have "restore_placeholders u source (?pre @ translation @ ?post) =
      Inr (?pre @ translation @ ?post)" if "chr CHR ''_'' \<notin> set translation"
    using that unfolding restore_placeholders_def Let_def by (intro restore_sub_plain) simp
  with a show ?thesis by simp
qed

theorem fix_translation_newlines_witness:
  "startswith_nl (NL # str ''Hello'' @ [NL]) \<and> endswith_nl (NL # str ''Hello'' @ [NL]) \<and>
   chr CHR ''_'' \<notin> set (str ''Hola'') \<and>
   fix_translation example_db (NL # str ''Hello'' @ [NL]) (str ''Hola'') =
     Inr (NL # str ''Hola'' @ [NL]) \<and>
   fix_translation example_db (NL # str ''Hello'' @ [NL]) [] = Inr [NL] \<and>
   fix_translation example_db (str ''Hello'') (str ''Hola'' @ [NL]) = Inr (str ''Hola'' @ [NL])"
proof -
  let ?m = "NL # str ''Hello'' @ [NL]"
  have s: "startswith_nl ?m" and e: "endswith_nl ?m" by code_simp+
  have s1: "\<not> startswith_nl (str ''Hola'')" and e1: "\<not> endswith_nl (str ''Hola'')" by code_simp+
  have s2: "\<not> startswith_nl []" and e2: "\<not> endswith_nl []" by code_simp+
  have s3: "\<not> startswith_nl (str ''Hello'')" and e3: "\<not> endswith_nl (str ''Hello'')"
    by code_simp+
  have e4: "endswith_nl (str ''Hola'' @ [NL])" by (simp add: endswith_nl_def)
  have n0: "str ''Hola'' \<noteq> []" by (simp add: str_def)
  have u1: "chr CHR ''_'' \<notin> set (str ''Hola'')" by (simp add: str_def)
  have u2: "chr CHR ''_'' \<notin> set []" by simp
  have u3: "chr CHR ''_'' \<notin> set (str ''Hola'' @ [NL])" by (simp add: NL_def str_def)
  from fix_translation_newlines[of example_db ?m "str ''Hola''", THEN conjunct2, rule_format, OF u1]
  have r1: "fix_translation example_db ?m (str ''Hola'') = Inr (NL # str ''Hola'' @ [NL])"
    using s e s1 e1 n0 by simp
  from fix_translation_newlines[of example_db ?m "[]", THEN conjunct2, rule_format, OF u2]
  have r2: "fix_translation example_db ?m [] = Inr [NL]"
    using s e s2 e2 by simp
  from fix_translation_newlines[of example_db "str ''Hello''" "str ''Hola'' @ [NL]",
      THEN conjunct2, rule_format, OF u3]
  have r3: "fix_translation example_db (str ''Hello'') (str ''Hola'' @ [NL]) = Inr (str ''Hola'' @ [NL])"
    using s3 e3 by simp
  from s e u1 r1 r2 r3 show ?thesis by blast
qed




































text \<open>
  A name that lower-cases to something the token pattern does not read back: the msgid
  \<^verbatim>\<open>%(\<close>U+0130\<^verbatim>\<open>)s\<close> is humanized to a token holding the combining dot, which is not a
  word character, so the token is not recognised and stays in the text.
\<close>

lemma lowercase_name_example:
  "humanize_placeholders dotted_db (str ''%('' @ [304] @ str '')s'') =
     str ''__'' @ [105, 775] @ str ''__'' \<and>
   fix_translation dotted_db (str ''%('' @ [304] @ str '')s'')
       (str ''__'' @ [105, 775] @ str ''__'') =
     Inr (str ''__'' @ [105, 775] @ str ''__'') \<and>
   \<not> list_all (name_ok dotted_db) (pieces dotted_db (str ''%('' @ [304] @ str '')s''))"
  by code_simp


end
